theory Spec2Isabelle
  imports Main "HOL-Library.Word"
begin

unbundle bit_operations_syntax

section \<open>Constants and tables\<close>

text \<open>
  A lane is a Go \<open>uint64\<close>, a byte a Go \<open>byte\<close>. The permutation state \<open>[25]uint64\<close> is a
  list of lanes; the theorems about it carry the length 25 of the array type as a
  hypothesis. Go's \<open>int\<close> is modelled as an unbounded integer: every length and size
  below is the length of a buffer or a constructor argument, and no claim depends on
  its wrap-around.
\<close>

type_synonym byte = "8 word"
type_synonym uint64 = "64 word"


definition domainSHA3 :: byte where
  "domainSHA3 = 0x06"

definition domainSHAKE :: byte where
  "domainSHAKE = 0x1f"

definition rounds :: nat where
  "rounds = 24"

definition roundConstants :: "uint64 list" where
  "roundConstants =
    [0x0000000000000001, 0x0000000000008082,
     0x800000000000808A, 0x8000000080008000,
     0x000000000000808B, 0x0000000080000001,
     0x8000000080008081, 0x8000000000008009,
     0x000000000000008A, 0x0000000000000088,
     0x0000000080008009, 0x000000008000000A,
     0x000000008000808B, 0x800000000000008B,
     0x8000000000008089, 0x8000000000008003,
     0x8000000000008002, 0x8000000000000080,
     0x000000000000800A, 0x800000008000000A,
     0x8000000080008081, 0x8000000000008080,
     0x0000000080000001, 0x8000000080008008]"

definition rotationConstants :: "nat list" where
  "rotationConstants =
    [1, 3, 6, 10, 15, 21, 28, 36,
     45, 55, 2, 14, 27, 41, 56, 8,
     25, 43, 62, 18, 39, 61, 20, 44]"

definition piLane :: "nat list" where
  "piLane =
    [10, 7, 11, 17, 18, 3, 5, 16,
     8, 21, 24, 4, 15, 23, 19, 13,
     12, 2, 20, 14, 22, 9, 6, 1]"

text \<open>
  \<open>rotl64\<close>: \<open>(x << n) | (x >> (64 - n))\<close>. The amount is a \<open>uint\<close>; it is only ever
  an entry of \<open>rotationConstants\<close> or the literal 1, so \<open>64 - n\<close> does not wrap.
\<close>

definition rotl64 :: "uint64 \<Rightarrow> nat \<Rightarrow> uint64" where
  "rotl64 x n = push_bit n x OR drop_bit (64 - n) x"

section \<open>The table-driven permutation\<close>

text \<open>
  The \<open>keccakf\<close> written with loops over \<open>bc\<close>, \<open>piLane\<close> and the rows. Every loop has
  fixed bounds and is a \<open>fold\<close> over its index list; the array \<open>bc\<close> is declared outside
  the round loop and is threaded through the rounds with the state.
\<close>

definition theta_parity :: "uint64 list \<Rightarrow> uint64 list \<Rightarrow> uint64 list" where
  "theta_parity st bc =
     fold (\<lambda>i bc. bc[i := st ! i XOR st ! (5 + i) XOR st ! (10 + i) XOR st ! (15 + i) XOR st ! (20 + i)])
       [0..<5] bc"

definition theta_apply :: "uint64 list \<Rightarrow> uint64 list \<Rightarrow> uint64 list" where
  "theta_apply bc st =
     fold (\<lambda>i st.
        let t = bc ! ((i + 4) mod 5) XOR rotl64 (bc ! ((i + 1) mod 5)) 1
        in fold (\<lambda>j st. st[i + j := st ! (i + j) XOR t]) [0, 5, 10, 15, 20] st)
       [0..<5] st"

definition rho_pi :: "uint64 list \<Rightarrow> uint64 list" where
  "rho_pi st =
     snd (fold (\<lambda>i (temp, st).
            let j = piLane ! i;
                temp2 = st ! j
            in (temp2, st[j := rotl64 temp (rotationConstants ! i)]))
          [0..<24] (st ! 1, st))"

definition chi :: "uint64 list \<times> uint64 list \<Rightarrow> uint64 list \<times> uint64 list" where
  "chi = fold (\<lambda>j (bc, st).
            let bc = fold (\<lambda>i bc. bc[i := st ! (j + i)]) [0..<5] bc
            in (bc, fold (\<lambda>i st. st[j + i := st ! (j + i) XOR (NOT (bc ! ((i + 1) mod 5)) AND bc ! ((i + 2) mod 5))])
                      [0..<5] st))
          [0, 5, 10, 15, 20]"

definition iota :: "nat \<Rightarrow> uint64 list \<Rightarrow> uint64 list" where
  "iota r st = st[0 := st ! 0 XOR roundConstants ! r]"

definition keccakf_round :: "nat \<Rightarrow> uint64 list \<times> uint64 list \<Rightarrow> uint64 list \<times> uint64 list" where
  "keccakf_round r = (\<lambda>(bc, st).
     let bc = theta_parity st bc;
         st = theta_apply bc st;
         st = rho_pi st;
         (bc, st) = chi (bc, st)
     in (bc, iota r st))"

definition keccakf :: "uint64 list \<Rightarrow> uint64 list" where
  "keccakf st = snd (fold keccakf_round [0..<rounds] (replicate 5 0, st))"

section \<open>The unrolled permutation\<close>

text \<open>
  The other \<open>keccakf\<close> of the repository, with every round written out statement by
  statement over the locals \<open>bc\<close> and \<open>tmp\<close>. The parallel assignments of the rho/pi
  chain read the lane before they overwrite it.
\<close>

definition theta_unrolled :: "uint64 list \<times> uint64 list \<Rightarrow> uint64 list \<times> uint64 list" where
  "theta_unrolled = (\<lambda>(bc, st).
     let bc = bc[0 := st ! 0 XOR st ! 5 XOR st ! 10 XOR st ! 15 XOR st ! 20];
         bc = bc[1 := st ! 1 XOR st ! 6 XOR st ! 11 XOR st ! 16 XOR st ! 21];
         bc = bc[2 := st ! 2 XOR st ! 7 XOR st ! 12 XOR st ! 17 XOR st ! 22];
         bc = bc[3 := st ! 3 XOR st ! 8 XOR st ! 13 XOR st ! 18 XOR st ! 23];
         bc = bc[4 := st ! 4 XOR st ! 9 XOR st ! 14 XOR st ! 19 XOR st ! 24];
         tmp = bc ! 4 XOR (push_bit 1 (bc ! 1) OR drop_bit (64 - 1) (bc ! 1));
         st = st[0 := st ! 0 XOR tmp];
         st = st[5 := st ! 5 XOR tmp];
         st = st[10 := st ! 10 XOR tmp];
         st = st[15 := st ! 15 XOR tmp];
         st = st[20 := st ! 20 XOR tmp];
         tmp = bc ! 0 XOR (push_bit 1 (bc ! 2) OR drop_bit (64 - 1) (bc ! 2));
         st = st[1 := st ! 1 XOR tmp];
         st = st[6 := st ! 6 XOR tmp];
         st = st[11 := st ! 11 XOR tmp];
         st = st[16 := st ! 16 XOR tmp];
         st = st[21 := st ! 21 XOR tmp];
         tmp = bc ! 1 XOR (push_bit 1 (bc ! 3) OR drop_bit (64 - 1) (bc ! 3));
         st = st[2 := st ! 2 XOR tmp];
         st = st[7 := st ! 7 XOR tmp];
         st = st[12 := st ! 12 XOR tmp];
         st = st[17 := st ! 17 XOR tmp];
         st = st[22 := st ! 22 XOR tmp];
         tmp = bc ! 2 XOR (push_bit 1 (bc ! 4) OR drop_bit (64 - 1) (bc ! 4));
         st = st[3 := st ! 3 XOR tmp];
         st = st[8 := st ! 8 XOR tmp];
         st = st[13 := st ! 13 XOR tmp];
         st = st[18 := st ! 18 XOR tmp];
         st = st[23 := st ! 23 XOR tmp];
         tmp = bc ! 3 XOR (push_bit 1 (bc ! 0) OR drop_bit (64 - 1) (bc ! 0));
         st = st[4 := st ! 4 XOR tmp];
         st = st[9 := st ! 9 XOR tmp];
         st = st[14 := st ! 14 XOR tmp];
         st = st[19 := st ! 19 XOR tmp];
         st = st[24 := st ! 24 XOR tmp]
     in (bc, st))"

text \<open>One line \<open>tmp, S[j] = S[j], tmp << n | tmp >> (64 - n)\<close> of the rho/pi chain.\<close>

definition rho_pi_step :: "nat \<Rightarrow> nat \<Rightarrow> uint64 \<times> uint64 list \<Rightarrow> uint64 \<times> uint64 list" where
  "rho_pi_step j n = (\<lambda>(tmp, st). (st ! j, st[j := push_bit n tmp OR drop_bit (64 - n) tmp]))"

definition rho_pi_unrolled :: "uint64 list \<Rightarrow> uint64 list" where
  "rho_pi_unrolled st =
    (let tmp = st ! 1;
         (tmp, st) = rho_pi_step 10 1 (tmp, st);
         (tmp, st) = rho_pi_step 7 3 (tmp, st);
         (tmp, st) = rho_pi_step 11 6 (tmp, st);
         (tmp, st) = rho_pi_step 17 10 (tmp, st);
         (tmp, st) = rho_pi_step 18 15 (tmp, st);
         (tmp, st) = rho_pi_step 3 21 (tmp, st);
         (tmp, st) = rho_pi_step 5 28 (tmp, st);
         (tmp, st) = rho_pi_step 16 36 (tmp, st);
         (tmp, st) = rho_pi_step 8 45 (tmp, st);
         (tmp, st) = rho_pi_step 21 55 (tmp, st);
         (tmp, st) = rho_pi_step 24 2 (tmp, st);
         (tmp, st) = rho_pi_step 4 14 (tmp, st);
         (tmp, st) = rho_pi_step 15 27 (tmp, st);
         (tmp, st) = rho_pi_step 23 41 (tmp, st);
         (tmp, st) = rho_pi_step 19 56 (tmp, st);
         (tmp, st) = rho_pi_step 13 8 (tmp, st);
         (tmp, st) = rho_pi_step 12 25 (tmp, st);
         (tmp, st) = rho_pi_step 2 43 (tmp, st);
         (tmp, st) = rho_pi_step 20 62 (tmp, st);
         (tmp, st) = rho_pi_step 14 18 (tmp, st);
         (tmp, st) = rho_pi_step 22 39 (tmp, st);
         (tmp, st) = rho_pi_step 9 61 (tmp, st);
         (tmp, st) = rho_pi_step 6 20 (tmp, st)
     in st[1 := push_bit 44 tmp OR drop_bit (64 - 44) tmp])"

text \<open>
  The chi statements of one row, the row starting at lane \<open>j\<close>: the source writes the
  same ten statements five times, for \<open>j\<close> = 0, 5, 10, 15 and 20.
\<close>

definition chi_row_unrolled :: "nat \<Rightarrow> uint64 list \<times> uint64 list \<Rightarrow> uint64 list \<times> uint64 list" where
  "chi_row_unrolled j = (\<lambda>(bc, st).
     let bc = bc[0 := st ! j];
         bc = bc[1 := st ! (j + 1)];
         bc = bc[2 := st ! (j + 2)];
         bc = bc[3 := st ! (j + 3)];
         bc = bc[4 := st ! (j + 4)];
         st = st[j := st ! j XOR (NOT (bc ! 1) AND bc ! 2)];
         st = st[j + 1 := st ! (j + 1) XOR (NOT (bc ! 2) AND bc ! 3)];
         st = st[j + 2 := st ! (j + 2) XOR (NOT (bc ! 3) AND bc ! 4)];
         st = st[j + 3 := st ! (j + 3) XOR (NOT (bc ! 4) AND bc ! 0)];
         st = st[j + 4 := st ! (j + 4) XOR (NOT (bc ! 0) AND bc ! 1)]
     in (bc, st))"

definition chi_unrolled :: "uint64 list \<times> uint64 list \<Rightarrow> uint64 list \<times> uint64 list" where
  "chi_unrolled p =
     chi_row_unrolled 20 (chi_row_unrolled 15 (chi_row_unrolled 10 (chi_row_unrolled 5 (chi_row_unrolled 0 p))))"

definition keccakf_unrolled_round :: "nat \<Rightarrow> uint64 list \<times> uint64 list \<Rightarrow> uint64 list \<times> uint64 list" where
  "keccakf_unrolled_round r p =
    (let (bc, st) = theta_unrolled p;
         st = rho_pi_unrolled st;
         (bc, st) = chi_unrolled (bc, st)
     in (bc, st[0 := st ! 0 XOR roundConstants ! r]))"

definition keccakf_unrolled :: "uint64 list \<Rightarrow> uint64 list" where
  "keccakf_unrolled st = snd (fold keccakf_unrolled_round [0..<rounds] (replicate 5 0, st))"

section \<open>The sponge\<close>

text \<open>
  A run-time panic of the Go code (the explicit \<open>panic\<close> of \<open>absorb\<close>, an index or a
  slice bound out of range, a negative length given to \<open>make\<close>) is a value \<open>Inl\<close> of
  the result. A loop that the source can run forever returns an \<open>option\<close>, with \<open>None\<close>
  for not returning. Byte slices are lists of bytes: the model passes them by value.
\<close>

datatype panic =
    AbsorbInvalidBlockSize
  | IndexOutOfRange
  | SliceBoundsOutOfRange
  | MakeLenOutOfRange

text \<open>
  The struct \<open>keccak\<close>. Its field \<open>size\<close> is \<open>size_k\<close> here, \<open>size\<close> being the length
  function of HOL.
\<close>

record keccak =
  S :: "uint64 list"
  size_k :: int
  blockSize :: int
  buf :: "byte list"
  domain :: byte

text \<open>Go's integer division truncates towards zero.\<close>

definition go_div :: "int \<Rightarrow> int \<Rightarrow> int" where
  "go_div a b = sgn a * sgn b * (\<bar>a\<bar> div \<bar>b\<bar>)"

definition newKeccak :: "int \<Rightarrow> int \<Rightarrow> byte \<Rightarrow> keccak" where
  "newKeccak capacity output dmn =
     \<lparr>S = replicate 25 0,
      size_k = go_div output 8,
      blockSize = 200 - go_div capacity 8,
      buf = [],
      domain = dmn\<rparr>"





text \<open>
  The SHA-3 constructors. The repository holds them in two forms. One passes the
  capacity, the output bits and the domain, \<open>newKeccak(224*2, 224, domainSHA3)\<close>, as
  the legacy and the SHAKE constructors do; it is the one that fits the three-parameter
  \<open>newKeccak\<close> above, and the one modelled here. The other passes the digest bits and
  the domain only, \<open>newKeccak(224, domainSHA3)\<close>; no \<open>newKeccak\<close> of two parameters is
  among the sources.
\<close>

definition NewSHA3224 :: keccak where
  "NewSHA3224 = newKeccak (224 * 2) 224 domainSHA3"

definition NewSHA3256 :: keccak where
  "NewSHA3256 = newKeccak (256 * 2) 256 domainSHA3"

definition NewSHA3384 :: keccak where
  "NewSHA3384 = newKeccak (384 * 2) 384 domainSHA3"

definition NewSHA3512 :: keccak where
  "NewSHA3512 = newKeccak (512 * 2) 512 domainSHA3"


definition NewSHAKE256 :: "int \<Rightarrow> keccak" where
  "NewSHAKE256 n = newKeccak (256 * 2) (n * 8) domainSHAKE"

subsection \<open>Byte serialization\<close>

definition uint64le :: "byte list \<Rightarrow> panic + uint64" where
  "uint64le v =
     (if length v < 8 then Inl IndexOutOfRange
      else Inr (ucast (v ! 0) OR
                push_bit 8 (ucast (v ! 1)) OR
                push_bit 16 (ucast (v ! 2)) OR
                push_bit 24 (ucast (v ! 3)) OR
                push_bit 32 (ucast (v ! 4)) OR
                push_bit 40 (ucast (v ! 5)) OR
                push_bit 48 (ucast (v ! 6)) OR
                push_bit 56 (ucast (v ! 7))))"

text \<open>\<open>putUint64le\<close> writes through the slice it is given; the model returns that slice.\<close>

definition putUint64le :: "byte list \<Rightarrow> uint64 \<Rightarrow> panic + byte list" where
  "putUint64le v x =
     (if length v < 8 then Inl IndexOutOfRange
      else Inr (v[0 := ucast x,
                  1 := ucast (drop_bit 8 x),
                  2 := ucast (drop_bit 16 x),
                  3 := ucast (drop_bit 24 x),
                  4 := ucast (drop_bit 32 x),
                  5 := ucast (drop_bit 40 x),
                  6 := ucast (drop_bit 48 x),
                  7 := ucast (drop_bit 56 x)]))"

subsection \<open>absorb, pad, final\<close>

text \<open>
  The loop of \<open>absorb\<close> over the word indices: \<open>k.S[i] ^= uint64le(block[i*8:])\<close>, with
  the bound checks of \<open>k.S[i]\<close> (an array of 25 lanes) and of the slice expression.
\<close>

fun absorb_loop :: "byte list \<Rightarrow> nat list \<Rightarrow> uint64 list \<Rightarrow> panic + uint64 list" where
  "absorb_loop block [] st = Inr st"
| "absorb_loop block (i # is) st =
     (if 25 \<le> i then Inl IndexOutOfRange
      else if length block < i * 8 then Inl SliceBoundsOutOfRange
      else case uint64le (drop (i * 8) block) of
             Inl e \<Rightarrow> Inl e
           | Inr w \<Rightarrow> absorb_loop block is (st[i := st ! i XOR w]))"

definition absorb :: "keccak \<Rightarrow> byte list \<Rightarrow> panic + keccak" where
  "absorb k block =
     (if int (length block) \<noteq> blockSize k then Inl AbsorbInvalidBlockSize
      else case absorb_loop block [0..<nat (go_div (blockSize k) 8)] (S k) of
             Inl e \<Rightarrow> Inl e
           | Inr st \<Rightarrow> Inr (k\<lparr>S := keccakf_unrolled st\<rparr>))"

text \<open>
  \<open>pad\<close> ignores its parameter and reads \<open>k.buf\<close>. \<open>copy\<close> copies as many bytes as the
  shorter of its two slices has.
\<close>

definition pad :: "keccak \<Rightarrow> byte list \<Rightarrow> panic + byte list" where
  "pad k block =
     (if blockSize k < 0 then Inl MakeLenOutOfRange
      else
        let padded = replicate (nat (blockSize k)) 0;
            n = min (length padded) (length (buf k));
            padded = take n (buf k) @ drop n padded
        in if length padded \<le> length (buf k) then Inl IndexOutOfRange
           else
             let padded = padded[length (buf k) := domain k]
             in if length padded = 0 then Inl IndexOutOfRange
                else Inr (padded[length padded - 1 := padded ! (length padded - 1) OR 0x80]))"

definition final :: "keccak \<Rightarrow> panic + keccak" where
  "final k = (case pad k (buf k) of Inl e \<Rightarrow> Inl e | Inr last_block \<Rightarrow> absorb k last_block)"

subsection \<open>Write, Reset and the accessors\<close>

text \<open>
  The loop \<open>for len(b) >= k.blockSize\<close> of \<open>Write\<close>, with the final \<open>k.buf = b\<close>. With
  a block size of 0 it never ends.
\<close>

partial_function (option) write_loop :: "keccak \<Rightarrow> byte list \<Rightarrow> (panic + keccak) option" where
  "write_loop k b =
     (if blockSize k \<le> int (length b) then
        (if blockSize k < 0 then Some (Inl SliceBoundsOutOfRange)
         else case absorb k (take (nat (blockSize k)) b) of
                Inl e \<Rightarrow> Some (Inl e)
              | Inr k' \<Rightarrow> write_loop k' (drop (nat (blockSize k)) b))
      else Some (Inr (k\<lparr>buf := b\<rparr>)))"

declare write_loop.simps [code]

text \<open>\<open>Write\<close> returns the count \<open>n\<close> (its error is always \<open>nil\<close>) and the updated receiver.\<close>

definition Write :: "keccak \<Rightarrow> byte list \<Rightarrow> (panic + int \<times> keccak) option" where
  "Write k b =
     (let n = int (length b) in
      if length (buf k) > 0 then
        let x = blockSize k - int (length (buf k));
            x = (if x > int (length b) then int (length b) else x)
        in if x < 0 then Some (Inl SliceBoundsOutOfRange)
           else
             let k = k\<lparr>buf := buf k @ take (nat x) b\<rparr>;
                 b = drop (nat x) b
             in if int (length (buf k)) < blockSize k then Some (Inr (n, k))
                else case absorb k (buf k) of
                       Inl e \<Rightarrow> Some (Inl e)
                     | Inr k \<Rightarrow> map_option (map_sum id (Pair n)) (write_loop (k\<lparr>buf := []\<rparr>) b)
      else map_option (map_sum id (Pair n)) (write_loop k b))"


definition Size :: "keccak \<Rightarrow> int" where
  "Size k = size_k k"

definition BlockSize :: "keccak \<Rightarrow> int" where
  "BlockSize k = blockSize k"

subsection \<open>squeeze and Sum\<close>

text \<open>The loop \<open>for i := range k.S { putUint64le(buf[i*8:], k.S[i]) }\<close>.\<close>

fun squeeze_dump :: "uint64 list \<Rightarrow> nat list \<Rightarrow> byte list \<Rightarrow> panic + byte list" where
  "squeeze_dump st [] scratch = Inr scratch"
| "squeeze_dump st (i # is) scratch =
     (if length scratch < i * 8 then Inl SliceBoundsOutOfRange
      else case putUint64le (drop (i * 8) scratch) (st ! i) of
             Inl e \<Rightarrow> Inl e
           | Inr v \<Rightarrow> squeeze_dump st is (take (i * 8) scratch @ v))"

text \<open>
  The endless \<open>for\<close> of \<open>squeeze\<close>, left by \<open>break\<close>; \<open>scratch\<close> is its local \<open>buf\<close>. A
  slice expression \<open>buf[:n]\<close> panics for a negative \<open>n\<close> and for one beyond the 200
  bytes of \<open>buf\<close>. With a block size of 0 and a positive \<open>n\<close> the loop never ends.
\<close>

partial_function (option) squeeze_loop ::
  "keccak \<Rightarrow> byte list \<Rightarrow> int \<Rightarrow> byte list \<Rightarrow> (panic + byte list \<times> keccak) option" where
  "squeeze_loop k scratch n b =
     (case squeeze_dump (S k) [0..<25] scratch of
        Inl e \<Rightarrow> Some (Inl e)
      | Inr scratch \<Rightarrow>
          if n \<le> blockSize k then
            (if n < 0 \<or> int (length scratch) < n then Some (Inl SliceBoundsOutOfRange)
             else Some (Inr (b @ take (nat n) scratch, k)))
          else if blockSize k < 0 \<or> int (length scratch) < blockSize k
               then Some (Inl SliceBoundsOutOfRange)
          else squeeze_loop (k\<lparr>S := keccakf_unrolled (S k)\<rparr>) scratch (n - blockSize k)
                 (b @ take (nat (blockSize k)) scratch))"

declare squeeze_loop.simps [code]

definition squeeze :: "keccak \<Rightarrow> byte list \<Rightarrow> (panic + byte list \<times> keccak) option" where
  "squeeze k b = squeeze_loop k (replicate (8 * 25) 0) (size_k k) b"

text \<open>
  \<open>Sum\<close> copies its receiver into the local \<open>k\<close> and finalizes and squeezes the copy.
  The result is the returned slice together with the receiver as the call leaves it.
\<close>

definition Sum :: "keccak \<Rightarrow> byte list \<Rightarrow> (panic + byte list \<times> keccak) option" where
  "Sum k0 b =
     (let k = k0 in
      case final k of
        Inl e \<Rightarrow> Some (Inl e)
      | Inr k \<Rightarrow>
          (case squeeze k b of
             None \<Rightarrow> None
           | Some (Inl e) \<Rightarrow> Some (Inl e)
           | Some (Inr (out, k)) \<Rightarrow> Some (Inr (out, k0))))"

section \<open>The permutation as the specification words it\<close>

text \<open>
  Each sub-step as a function of a snapshot of the state: the new value of every lane
  is written in terms of the lanes before the sub-step, with no update in place.
\<close>

definition parity :: "uint64 list \<Rightarrow> nat \<Rightarrow> uint64" where
  "parity st c = st ! c XOR st ! (c + 5) XOR st ! (c + 10) XOR st ! (c + 15) XOR st ! (c + 20)"

definition theta_spec :: "uint64 list \<Rightarrow> uint64 list" where
  "theta_spec st =
     map (\<lambda>k. let c = k mod 5
              in st ! k XOR (parity st ((c + 4) mod 5) XOR rotl64 (parity st ((c + 1) mod 5)) 1))
       [0..<25]"

definition rotation_amounts :: "nat list" where
  "rotation_amounts =
     [1, 3, 6, 10, 15, 21, 28, 36, 45, 55, 2, 14, 27, 41, 56, 8, 25, 43, 62, 18, 39, 61, 20, 44]"

text \<open>
  Step \<open>i\<close> of the lane cycle moves the lane before it in the cycle, lane 1 for the
  first step, to position \<open>piLane ! i\<close>, rotated by the \<open>i\<close>-th amount. Lane 0 is no
  position of the cycle.
\<close>

definition rho_pi_spec :: "uint64 list \<Rightarrow> uint64 list" where
  "rho_pi_spec st =
     fold (\<lambda>i acc. acc[piLane ! i := rotl64 (st ! ((1 # piLane) ! i)) (rotation_amounts ! i)])
       [0..<24] st"

definition chi_spec :: "uint64 list \<Rightarrow> uint64 list" where
  "chi_spec st =
     map (\<lambda>k. let row = 5 * (k div 5); i = k mod 5
              in st ! k XOR (NOT (st ! (row + (i + 1) mod 5)) AND st ! (row + (i + 2) mod 5)))
       [0..<25]"

definition iota_spec :: "nat \<Rightarrow> uint64 list \<Rightarrow> uint64 list" where
  "iota_spec r st = map (\<lambda>k. if k = 0 then st ! k XOR roundConstants ! r else st ! k) [0..<25]"

definition round_spec :: "nat \<Rightarrow> uint64 list \<Rightarrow> uint64 list" where
  "round_spec r st = iota_spec r (chi_spec (rho_pi_spec (theta_spec st)))"

definition keccakf_spec :: "uint64 list \<Rightarrow> uint64 list" where
  "keccakf_spec st = fold round_spec [0..<24] st"

section \<open>The sponge as the specification words it\<close>

text \<open>
  The invariants of a sponge instance in the data model: a rate between 1 and 200
  bytes, a state of 25 lanes, and fewer pending bytes than the rate.
\<close>

definition sponge_inv :: "keccak \<Rightarrow> bool" where
  "sponge_inv k \<longleftrightarrow>
     0 < blockSize k \<and> blockSize k \<le> 200 \<and> length (S k) = 25 \<and> int (length (buf k)) < blockSize k"

text \<open>A little-endian 64-bit word of up to eight bytes, and the eight bytes of a lane.\<close>

definition word_of_le :: "byte list \<Rightarrow> uint64" where
  "word_of_le bs = foldr (\<lambda>b w. ucast b OR push_bit 8 w) bs 0"

definition le_bytes :: "uint64 \<Rightarrow> byte list" where
  "le_bytes x = map (\<lambda>j. ucast (drop_bit (8 * j) x)) [0..<8]"

definition serialize :: "uint64 list \<Rightarrow> byte list" where
  "serialize st = concat (map le_bytes st)"

text \<open>Word \<open>i\<close> of the block is XORed into lane \<open>i\<close>, for the \<open>rate / 8\<close> words of a block.\<close>

definition xor_block :: "nat \<Rightarrow> uint64 list \<Rightarrow> byte list \<Rightarrow> uint64 list" where
  "xor_block rate st block =
     map (\<lambda>i. if i < rate div 8 then st ! i XOR word_of_le (take 8 (drop (8 * i) block)) else st ! i)
       [0..<25]"

text \<open>
  The final block: the pending bytes, the domain byte, zero bytes up to the rate, and
  \<open>0x80\<close> ORed into the last byte.
\<close>

definition pad_spec :: "nat \<Rightarrow> byte list \<Rightarrow> byte \<Rightarrow> byte list" where
  "pad_spec rate pending d =
     map (\<lambda>i. (if i < length pending then pending ! i else if i = length pending then d else 0)
              OR (if i = rate - 1 then 0x80 else 0))
       [0..<rate]"



text \<open>
  Squeezing \<open>n\<close> bytes: the first \<open>n\<close> bytes of the serialized state when \<open>n\<close> is at
  most the rate, else the first \<open>rate\<close> bytes followed by what the permuted state gives
  for \<open>n - rate\<close>.
\<close>

function squeeze_spec :: "nat \<Rightarrow> uint64 list \<Rightarrow> nat \<Rightarrow> byte list" where
  "squeeze_spec rate st n =
     (if rate = 0 \<or> n \<le> rate then take n (serialize st)
      else take rate (serialize st) @ squeeze_spec rate (keccakf_unrolled st) (n - rate))"
  by pat_completeness auto
termination
  by (relation "measure (\<lambda>(rate, st, n). n)") auto

declare squeeze_spec.simps [simp del]


section \<open>Properties of the permutation\<close>

lemma upt_5: "[0..<5] = [0, 1, 2, 3, 4]"
  by (simp add: upt_rec)

lemma upt_24: "[0..<24] = [0, 1, 2, 3, 4, 5, 6, 7, 8, 9, 10, 11, 12, 13, 14, 15, 16, 17, 18, 19, 20, 21, 22, 23]"
  by (simp add: upt_rec)

lemma upt_25: "[0..<25] = [0, 1, 2, 3, 4, 5, 6, 7, 8, 9, 10, 11, 12, 13, 14, 15, 16, 17, 18, 19, 20, 21, 22, 23, 24]"
  by (simp add: upt_rec)

lemma list5:
  assumes "length (bc :: 'a list) = 5"
  shows "bc = [bc ! 0, bc ! 1, bc ! 2, bc ! 3, bc ! 4]"
proof -
  have "map ((!) bc) [0..<length bc] = bc" by (rule map_nth)
  with assms show ?thesis by (simp add: upt_5)
qed

lemma list25:
  assumes "length (st :: 'a list) = 25"
  shows "st = [st ! 0, st ! 1, st ! 2, st ! 3, st ! 4, st ! 5, st ! 6, st ! 7, st ! 8, st ! 9,
               st ! 10, st ! 11, st ! 12, st ! 13, st ! 14, st ! 15, st ! 16, st ! 17, st ! 18, st ! 19,
               st ! 20, st ! 21, st ! 22, st ! 23, st ! 24]"
proof -
  have "map ((!) st) [0..<length st] = st" by (rule map_nth)
  with assms show ?thesis by (simp add: upt_25)
qed

lemma theta_explicit:
  assumes "st = [s0, s1, s2, s3, s4, s5, s6, s7, s8, s9, s10, s11, s12, s13, s14, s15, s16, s17, s18, s19, s20, s21, s22, s23, s24]"
  shows "theta_apply (theta_parity st [b0, b1, b2, b3, b4]) st = theta_spec st"
    and "length (theta_parity st [b0, b1, b2, b3, b4]) = 5"
  unfolding assms
  by (simp_all add: theta_apply_def theta_parity_def theta_spec_def parity_def upt_5 upt_25 Let_def)

lemma rho_pi_explicit:
  assumes "st = [s0, s1, s2, s3, s4, s5, s6, s7, s8, s9, s10, s11, s12, s13, s14, s15, s16, s17, s18, s19, s20, s21, s22, s23, s24]"
  shows "rho_pi st = rho_pi_spec st"
  unfolding assms
  by (simp add: rho_pi_def rho_pi_spec_def piLane_def rotationConstants_def rotation_amounts_def upt_24 Let_def)

lemma chi_explicit:
  assumes "st = [s0, s1, s2, s3, s4, s5, s6, s7, s8, s9, s10, s11, s12, s13, s14, s15, s16, s17, s18, s19, s20, s21, s22, s23, s24]"
  shows "snd (chi ([b0, b1, b2, b3, b4], st)) = chi_spec st"
    and "length (fst (chi ([b0, b1, b2, b3, b4], st))) = 5"
  unfolding assms
  by (simp_all add: chi_def chi_spec_def upt_5 upt_25 Let_def)

lemma iota_explicit:
  assumes "st = [s0, s1, s2, s3, s4, s5, s6, s7, s8, s9, s10, s11, s12, s13, s14, s15, s16, s17, s18, s19, s20, s21, s22, s23, s24]"
  shows "iota r st = iota_spec r st"
  unfolding assms
  by (simp add: iota_def iota_spec_def upt_25)

lemma rho_pi_step_rotl64: "rho_pi_step j n (tmp, st) = (st ! j, st[j := rotl64 tmp n])"
  by (simp add: rho_pi_step_def rotl64_def)

lemma theta_unrolled_explicit:
  assumes "st = [s0, s1, s2, s3, s4, s5, s6, s7, s8, s9, s10, s11, s12, s13, s14, s15, s16, s17, s18, s19, s20, s21, s22, s23, s24]"
  shows "snd (theta_unrolled ([b0, b1, b2, b3, b4], st)) = theta_spec st"
    and "length (fst (theta_unrolled ([b0, b1, b2, b3, b4], st))) = 5"
  unfolding assms theta_unrolled_def rotl64_def [symmetric]
  by (simp_all add: theta_spec_def parity_def upt_25 Let_def)

lemma rho_pi_unrolled_explicit:
  assumes "st = [s0, s1, s2, s3, s4, s5, s6, s7, s8, s9, s10, s11, s12, s13, s14, s15, s16, s17, s18, s19, s20, s21, s22, s23, s24]"
  shows "rho_pi_unrolled st = rho_pi_spec st"
  unfolding assms rho_pi_unrolled_def rotl64_def [symmetric]
  by (simp add: rho_pi_step_rotl64 rho_pi_spec_def piLane_def rotation_amounts_def upt_24 Let_def)

lemma chi_unrolled_explicit:
  assumes "st = [s0, s1, s2, s3, s4, s5, s6, s7, s8, s9, s10, s11, s12, s13, s14, s15, s16, s17, s18, s19, s20, s21, s22, s23, s24]"
  shows "snd (chi_unrolled ([b0, b1, b2, b3, b4], st)) = chi_spec st"
    and "length (fst (chi_unrolled ([b0, b1, b2, b3, b4], st))) = 5"
  unfolding assms
  by (simp_all add: chi_unrolled_def chi_row_unrolled_def chi_spec_def upt_25 Let_def)

lemma len_theta_spec: "length (theta_spec st) = 25" by (simp add: theta_spec_def)
lemma len_chi_spec: "length (chi_spec st) = 25" by (simp add: chi_spec_def)
lemma len_iota_spec: "length (iota_spec r st) = 25" by (simp add: iota_spec_def)
lemma len_round_spec: "length (round_spec r st) = 25" by (simp add: round_spec_def len_iota_spec)

lemma fold_list_update_length: "length (fold (\<lambda>i acc. acc[f i := g i]) is st) = length st"
  by (induction "is" arbitrary: st) simp_all

lemma len_rho_pi_spec: "length (rho_pi_spec st) = length st"
  by (simp add: rho_pi_spec_def fold_list_update_length)

lemma keccakf_round_spec:
  assumes bc: "length bc = 5" and st: "length st = 25"
  shows "\<exists>bc'. length bc' = 5 \<and> keccakf_round r (bc, st) = (bc', round_spec r st)"
proof -
  note b = list5 [OF bc]
  let ?bc1 = "theta_parity st bc"
  have t: "theta_apply ?bc1 st = theta_spec st" and l1: "length ?bc1 = 5"
    by (subst b, rule theta_explicit [OF list25 [OF st]])+
  have r: "rho_pi (theta_spec st) = rho_pi_spec (theta_spec st)"
    by (rule rho_pi_explicit [OF list25 [OF len_theta_spec]])
  let ?st2 = "rho_pi_spec (theta_spec st)"
  have l2: "length ?st2 = 25" by (simp add: len_rho_pi_spec len_theta_spec)
  have c: "snd (chi (?bc1, ?st2)) = chi_spec ?st2" and l3: "length (fst (chi (?bc1, ?st2))) = 5"
    by (subst list5 [OF l1], rule chi_explicit [OF list25 [OF l2]])+
  have i: "iota r (chi_spec ?st2) = iota_spec r (chi_spec ?st2)"
    by (rule iota_explicit [OF list25 [OF len_chi_spec]])
  show ?thesis
    using l3 by (simp add: keccakf_round_def Let_def t r c i round_spec_def split_beta)
qed

lemma keccakf_unrolled_round_spec:
  assumes bc: "length bc = 5" and st: "length st = 25"
  shows "\<exists>bc'. length bc' = 5 \<and> keccakf_unrolled_round r (bc, st) = (bc', round_spec r st)"
proof -
  let ?p1 = "theta_unrolled (bc, st)"
  have t: "snd ?p1 = theta_spec st" and l1: "length (fst ?p1) = 5"
    by (subst list5 [OF bc], rule theta_unrolled_explicit [OF list25 [OF st]])+
  have r: "rho_pi_unrolled (theta_spec st) = rho_pi_spec (theta_spec st)"
    by (rule rho_pi_unrolled_explicit [OF list25 [OF len_theta_spec]])
  let ?st2 = "rho_pi_spec (theta_spec st)"
  have l2: "length ?st2 = 25" by (simp add: len_rho_pi_spec len_theta_spec)
  have c: "snd (chi_unrolled (fst ?p1, ?st2)) = chi_spec ?st2"
    and l3: "length (fst (chi_unrolled (fst ?p1, ?st2))) = 5"
    by (subst list5 [OF l1], rule chi_unrolled_explicit [OF list25 [OF l2]])+
  have i: "(chi_spec ?st2)[0 := chi_spec ?st2 ! 0 XOR roundConstants ! r] = iota_spec r (chi_spec ?st2)"
    using iota_explicit [OF list25 [OF len_chi_spec]] by (simp add: iota_def)
  show ?thesis
    using l3 by (simp add: keccakf_unrolled_round_def Let_def t r c i round_spec_def split_beta)
qed

lemma fold_keccakf_round:
  "length bc = 5 \<Longrightarrow> length st = 25 \<Longrightarrow>
   \<exists>bc'. length bc' = 5 \<and> fold keccakf_round rs (bc, st) = (bc', fold round_spec rs st)"
proof (induction rs arbitrary: bc st)
  case Nil
  then show ?case by simp
next
  case (Cons r rs)
  from keccakf_round_spec [OF Cons.prems, of r]
  obtain bc1 where 1: "length bc1 = 5" "keccakf_round r (bc, st) = (bc1, round_spec r st)" by blast
  from Cons.IH [OF 1(1) len_round_spec, of r st] 1(2) show ?case by simp
qed

lemma fold_keccakf_unrolled_round:
  "length bc = 5 \<Longrightarrow> length st = 25 \<Longrightarrow>
   \<exists>bc'. length bc' = 5 \<and> fold keccakf_unrolled_round rs (bc, st) = (bc', fold round_spec rs st)"
proof (induction rs arbitrary: bc st)
  case Nil
  then show ?case by simp
next
  case (Cons r rs)
  from keccakf_unrolled_round_spec [OF Cons.prems, of r]
  obtain bc1 where 1: "length bc1 = 5" "keccakf_unrolled_round r (bc, st) = (bc1, round_spec r st)" by blast
  from Cons.IH [OF 1(1) len_round_spec, of r st] 1(2) show ?case by simp
qed

lemma len_fold_round_spec: "length st = 25 \<Longrightarrow> length (fold round_spec rs st) = 25"
  by (induction rs arbitrary: st) (simp_all add: len_round_spec)

lemma keccakf_is_spec: "length st = 25 \<Longrightarrow> keccakf st = keccakf_spec st"
  using fold_keccakf_round [of "replicate 5 0" st "[0..<24]"]
  by (auto simp: keccakf_def keccakf_spec_def rounds_def)

lemma keccakf_unrolled_is_spec: "length st = 25 \<Longrightarrow> keccakf_unrolled st = keccakf_spec st"
  using fold_keccakf_unrolled_round [of "replicate 5 0" st "[0..<24]"]
  by (auto simp: keccakf_unrolled_def keccakf_spec_def rounds_def)

lemma len_keccakf_unrolled: "length st = 25 \<Longrightarrow> length (keccakf_unrolled st) = 25"
  by (simp add: keccakf_unrolled_is_spec keccakf_spec_def len_fold_round_spec)


lemma rho_pi_lane0:
  assumes "length st = 25"
  shows "rho_pi st ! 0 = st ! 0"
  by (subst (1 2) list25 [OF assms])
     (simp add: rho_pi_def piLane_def upt_24 Let_def)

text \<open>
  C1. For every state of 25 lanes, the table-driven \<open>keccakf\<close> returns a state of 25
  lanes, the result of exactly 24 rounds, round \<open>r\<close> being theta, then rho and pi, then
  chi, then iota with the \<open>r\<close>-th round constant, each as the specification describes
  it on a snapshot of the state; the rotation amounts of the lane cycle are the listed
  ones, and rho and pi leave lane 0 as it is.
\<close>

theorem keccakf_rounds:
  assumes "length st = 25"
  shows "keccakf st = fold (\<lambda>r st. iota_spec r (chi_spec (rho_pi_spec (theta_spec st)))) [0..<24] st
         \<and> length (keccakf st) = 25
         \<and> rho_pi st ! 0 = st ! 0
         \<and> rotationConstants = [1, 3, 6, 10, 15, 21, 28, 36, 45, 55, 2, 14, 27, 41, 56, 8, 25, 43, 62, 18, 39, 61, 20, 44]"
proof -
  have "round_spec = (\<lambda>r st. iota_spec r (chi_spec (rho_pi_spec (theta_spec st))))"
    by (simp add: fun_eq_iff round_spec_def)
  with keccakf_is_spec [OF assms] len_fold_round_spec [OF assms, of "[0..<24]"]
    rho_pi_lane0 [OF assms]
  show ?thesis
    by (simp add: keccakf_spec_def rotationConstants_def)
qed

theorem keccakf_rounds_witness:
  "length (replicate 25 (0 :: uint64)) = 25
   \<and> keccakf (replicate 25 0) =
       fold (\<lambda>r st. iota_spec r (chi_spec (rho_pi_spec (theta_spec st)))) [0..<24] (replicate 25 0)
   \<and> length (keccakf (replicate 25 0)) = 25"
proof -
  have h: "length (replicate 25 (0 :: uint64)) = 25" by simp
  from keccakf_rounds [OF h] h show ?thesis by blast
qed

text \<open>
  C10. The unrolled \<open>keccakf\<close> and the table-driven \<open>keccakf\<close> return the same state
  for every state of 25 lanes.
\<close>

theorem keccakf_unrolled_eq_keccakf:
  assumes "length st = 25"
  shows "keccakf_unrolled st = keccakf st"
  by (simp add: keccakf_unrolled_is_spec [OF assms] keccakf_is_spec [OF assms])

theorem keccakf_unrolled_eq_keccakf_witness:
  "length (replicate 25 (0 :: uint64)) = 25
   \<and> keccakf_unrolled (replicate 25 0) = keccakf (replicate 25 0)"
proof -
  have h: "length (replicate 25 (0 :: uint64)) = 25" by simp
  from keccakf_unrolled_eq_keccakf [OF h] h show ?thesis by blast
qed

section \<open>Properties of the sponge\<close>

subsection \<open>Serialization, absorb, pad and final\<close>

lemma upt_8: "[0..<8] = [0, 1, 2, 3, 4, 5, 6, 7]"
  by (simp add: upt_rec)

lemma take8:
  assumes "8 \<le> length (v :: 'a list)"
  shows "take 8 v = [v ! 0, v ! 1, v ! 2, v ! 3, v ! 4, v ! 5, v ! 6, v ! 7]"
proof -
  have "take 8 v = map ((!) v) [0..<8]"
    using assms by (intro nth_equalityI) simp_all
  then show ?thesis by (simp add: upt_8)
qed

lemma uint64le_word:
  assumes "8 \<le> length v"
  shows "uint64le v = Inr (word_of_le (take 8 v))"
  using assms
  by (simp add: uint64le_def take8 word_of_le_def or.assoc)

lemma putUint64le_bytes:
  assumes "8 \<le> length v"
  shows "putUint64le v x = Inr (le_bytes x @ drop 8 v)"
proof -
  have "v = take 8 v @ drop 8 v" by simp
  then obtain r where v: "v = [v ! 0, v ! 1, v ! 2, v ! 3, v ! 4, v ! 5, v ! 6, v ! 7] @ r" and r: "r = drop 8 v"
    using take8 [OF assms] by metis
  show ?thesis
    by (subst v, subst (2) v) (simp add: putUint64le_def le_bytes_def upt_8 r)
qed


lemma absorb_loop_append:
  "absorb_loop block (is @ js) st =
     (case absorb_loop block is st of Inl e \<Rightarrow> Inl e | Inr st' \<Rightarrow> absorb_loop block js st')"
  by (induction "is" arbitrary: st) (simp_all split: sum.splits)

lemma absorb_loop_upt:
  assumes "length st = 25"
  shows "m \<le> 25 \<Longrightarrow> 8 * m \<le> length block \<Longrightarrow>
         absorb_loop block [0..<m] st =
           Inr (map (\<lambda>i. if i < m then st ! i XOR word_of_le (take 8 (drop (8 * i) block)) else st ! i) [0..<25])"
proof (induction m)
  case 0
  have "map ((!) st) [0..<25] = st"
    using map_nth [of st] assms by simp
  then show ?case by simp
next
  case (Suc m)
  let ?f = "\<lambda>m i. if i < m then st ! i XOR word_of_le (take 8 (drop (8 * i) block)) else st ! i"
  have w: "uint64le (drop (m * 8) block) = Inr (word_of_le (take 8 (drop (8 * m) block)))"
    using Suc.prems by (subst uint64le_word) (simp_all add: mult.commute)
  have upd: "(map (?f m) [0..<25])[m := st ! m XOR word_of_le (take 8 (drop (8 * m) block))]
             = map (?f (Suc m)) [0..<25]"
    using Suc.prems by (intro nth_equalityI) (auto simp: nth_list_update less_Suc_eq)
  from Suc show ?case
    by (simp add: absorb_loop_append w upd)
qed

lemma go_div_nonneg: "0 \<le> a \<Longrightarrow> 0 < b \<Longrightarrow> go_div a b = a div b"
  by (cases "a = 0") (simp_all add: go_div_def)

lemma absorb_ok:
  assumes "length (S k) = 25" and "blockSize k \<le> 200" and "int (length block) = blockSize k"
  shows "absorb k block = Inr (k\<lparr>S := keccakf_unrolled (xor_block (nat (blockSize k)) (S k) block)\<rparr>)"
proof -
  have nn: "0 \<le> blockSize k" using assms(3) by linarith
  have d: "nat (go_div (blockSize k) 8) = nat (blockSize k) div 8"
    using nn by (simp add: go_div_nonneg nat_div_distrib)
  have 1: "nat (blockSize k) div 8 \<le> 25" using assms(2) nn by linarith
  have 2: "8 * (nat (blockSize k) div 8) \<le> length block" using assms(3) by linarith
  show ?thesis
    using assms(3) by (simp add: absorb_def d absorb_loop_upt [OF assms(1) 1 2] xor_block_def)
qed

lemma absorb_panic_iff:
  "absorb k block = Inl AbsorbInvalidBlockSize \<longleftrightarrow> int (length block) \<noteq> blockSize k"
proof -
  have "absorb_loop block is st \<noteq> Inl AbsorbInvalidBlockSize" for "is" st
    by (induction "is" arbitrary: st) (auto simp: uint64le_def split: sum.splits if_splits)
  then show ?thesis
    by (auto simp: absorb_def split: sum.splits)
qed

lemma len_xor_block: "length (xor_block rate st block) = 25"
  by (simp add: xor_block_def)

lemma pad_ok:
  assumes "int (length (buf k)) < blockSize k"
  shows "pad k block = Inr (pad_spec (nat (blockSize k)) (buf k) (domain k))"
proof -
  let ?n = "nat (blockSize k)" and ?p = "length (buf k)"
  have p: "?p < ?n" using assms by linarith
  let ?a = "buf k @ replicate (?n - ?p) 0"
  have la: "length ?a = ?n" using p by simp
  have "(?a[?p := domain k])[?n - 1 := ?a[?p := domain k] ! (?n - 1) OR 0x80]
          = pad_spec ?n (buf k) (domain k)"
    using p by (intro nth_equalityI) (auto simp: pad_spec_def nth_list_update nth_append)
  with p assms show ?thesis
    by (simp add: pad_def Let_def min_def)
qed

lemma len_pad_spec: "length (pad_spec rate pending d) = rate"
  by (simp add: pad_spec_def)

lemma final_ok:
  assumes "sponge_inv k"
  shows "final k = Inr (k\<lparr>S := keccakf_unrolled
           (xor_block (nat (blockSize k)) (S k) (pad_spec (nat (blockSize k)) (buf k) (domain k)))\<rparr>)"
  using assms
  by (simp add: final_def sponge_inv_def pad_ok absorb_ok len_pad_spec)


subsection \<open>Write as the absorption of a stream\<close>










subsection \<open>The call sites of absorb\<close>

lemma write_loop_no_absorb_panic:
  assumes "write_loop k b = Some r"
  shows "r \<noteq> Inl AbsorbInvalidBlockSize"
proof (rule write_loop.raw_induct [where P = "\<lambda>k b r. r \<noteq> Inl AbsorbInvalidBlockSize", OF _ assms],
    goal_cases)
  case (1 loop k1 b1 r1)
  note IH = 1(1) and body = 1(2)
  show "r1 \<noteq> Inl AbsorbInvalidBlockSize"
  proof (cases "blockSize k1 \<le> int (length b1)")
    case False
    with body show ?thesis by auto
  next
    case ge: True
    show ?thesis
    proof (cases "blockSize k1 < 0")
      case True
      with ge body show ?thesis by auto
    next
      case False
      then have "int (length (take (nat (blockSize k1)) b1)) = blockSize k1"
        using ge by simp
      then have "absorb k1 (take (nat (blockSize k1)) b1) \<noteq> Inl AbsorbInvalidBlockSize"
        by (simp add: absorb_panic_iff)
      with ge False body IH show ?thesis
        by (auto split: sum.splits)
    qed
  qed
qed

lemma final_no_absorb_panic: "final k \<noteq> Inl AbsorbInvalidBlockSize"
proof (cases "int (length (buf k)) < blockSize k")
  case True
  then show ?thesis
    by (simp add: final_def pad_ok absorb_panic_iff len_pad_spec)
next
  case False
  then have "pad k (buf k) = Inl MakeLenOutOfRange \<or> pad k (buf k) = Inl IndexOutOfRange"
    by (auto simp: pad_def Let_def)
  then show ?thesis by (auto simp: final_def)
qed

lemma Write_no_absorb_panic: "Write k b \<noteq> Some (Inl AbsorbInvalidBlockSize)"
proof
  assume W: "Write k b = Some (Inl AbsorbInvalidBlockSize)"
  show False
  proof (cases "buf k = []")
    case True
    with W obtain r where "write_loop k b = Some r" "map_sum id (Pair (int (length b))) r = Inl AbsorbInvalidBlockSize"
      by (auto simp: Write_def)
    with write_loop_no_absorb_panic [of k b r] show False
      by (cases r) auto
  next
    case False
    let ?x0 = "blockSize k - int (length (buf k))"
    let ?x = "if ?x0 > int (length b) then int (length b) else ?x0"
    let ?k1 = "k\<lparr>buf := buf k @ take (nat ?x) b\<rparr>"
    from W False have x: "\<not> ?x < 0" and full: "\<not> int (length (buf ?k1)) < blockSize ?k1"
      and rest: "(case absorb ?k1 (buf ?k1) of Inl e \<Rightarrow> Some (Inl e)
                  | Inr k' \<Rightarrow> map_option (map_sum id (Pair (int (length b)))) (write_loop (k'\<lparr>buf := []\<rparr>) (drop (nat ?x) b)))
                 = Some (Inl AbsorbInvalidBlockSize)"
      by (auto simp: Write_def Let_def split: if_splits)
    have "int (length (buf ?k1)) = blockSize k"
      using x full by (auto split: if_splits)
    then have "absorb ?k1 (buf ?k1) \<noteq> Inl AbsorbInvalidBlockSize"
      by (simp add: absorb_panic_iff)
    with rest obtain k' r where "write_loop (k'\<lparr>buf := []\<rparr>) (drop (nat ?x) b) = Some r"
      "map_sum id (Pair (int (length b))) r = Inl AbsorbInvalidBlockSize"
      by (auto split: sum.splits)
    with write_loop_no_absorb_panic [of "k'\<lparr>buf := []\<rparr>" "drop (nat ?x) b" r] show False
      by (cases r) auto
  qed
qed

subsection \<open>squeeze and Sum\<close>

lemma len_le_bytes: "length (le_bytes x) = 8"
  by (simp add: le_bytes_def)

lemma len_serialize: "length (serialize st) = 8 * length st"
  by (induction st) (simp_all add: serialize_def len_le_bytes)

lemma squeeze_dump_append:
  "squeeze_dump st (is @ js) scratch =
     (case squeeze_dump st is scratch of Inl e \<Rightarrow> Inl e | Inr scratch' \<Rightarrow> squeeze_dump st js scratch')"
  by (induction "is" arbitrary: scratch) (simp_all split: sum.splits)

lemma squeeze_dump_upt:
  assumes "length st = 25" and "length scratch = 200"
  shows "m \<le> 25 \<Longrightarrow>
         squeeze_dump st [0..<m] scratch = Inr (serialize (take m st) @ drop (8 * m) scratch)"
proof (induction m)
  case 0
  then show ?case by (simp add: serialize_def)
next
  case (Suc m)
  let ?cur = "serialize (take m st) @ drop (8 * m) scratch"
  have m: "m < 25" using Suc.prems by simp
  have l: "length (serialize (take m st)) = m * 8"
    using m assms by (simp add: len_serialize)
  have t: "take (m * 8) ?cur = serialize (take m st)" and d: "drop (m * 8) ?cur = drop (8 * m) scratch"
    using l by (simp_all add: mult.commute)
  have lc: "\<not> length ?cur < m * 8"
    using l by simp
  have "8 \<le> length (drop (8 * m) scratch)"
    using m assms by simp
  then have p: "putUint64le (drop (8 * m) scratch) (st ! m) = Inr (le_bytes (st ! m) @ drop 8 (drop (8 * m) scratch))"
    by (rule putUint64le_bytes)
  have s: "serialize (take (Suc m) st) = serialize (take m st) @ le_bytes (st ! m)"
    using m assms by (simp add: take_Suc_conv_app_nth serialize_def)
  have step: "squeeze_dump st [m] ?cur = Inr (serialize (take (Suc m) st) @ drop (8 * Suc m) scratch)"
    unfolding squeeze_dump.simps t d p using lc by (simp add: s add.commute)
  from Suc show ?case
    by (simp add: squeeze_dump_append step del: squeeze_dump.simps)
qed

lemma squeeze_dump_serialize:
  assumes "length st = 25" and "length scratch = 200"
  shows "squeeze_dump st [0..<25] scratch = Inr (serialize st)"
  using squeeze_dump_upt [OF assms, of 25] assms by simp

lemma squeeze_loop_spec:
  assumes bs: "0 < blockSize k" "blockSize k \<le> 200"
  shows "length (S k) = 25 \<Longrightarrow> length scratch = 200 \<Longrightarrow> 0 \<le> n \<Longrightarrow>
         \<exists>k'. squeeze_loop k scratch n b =
                 Some (Inr (b @ squeeze_spec (nat (blockSize k)) (S k) (nat n), k'))"
  using bs
proof (induction "nat n" arbitrary: k scratch n b rule: less_induct)
  case less
  let ?r = "nat (blockSize k)"
  let ?ser = "serialize (S k)"
  have dump: "squeeze_dump (S k) [0..<25] scratch = Inr ?ser"
    using less.prems by (intro squeeze_dump_serialize) simp_all
  have ls: "length ?ser = 200" using less.prems by (simp add: len_serialize)
  show ?case
  proof (cases "n \<le> blockSize k")
    case True
    then have "nat n \<le> ?r" using less.prems by linarith
    then have sp: "squeeze_spec ?r (S k) (nat n) = take (nat n) ?ser"
      by (subst squeeze_spec.simps) simp
    have "\<not> (n < 0 \<or> int (length ?ser) < n)" using True less.prems ls by linarith
    with True show ?thesis
      by (subst squeeze_loop.simps) (simp add: dump sp)
  next
    case False
    let ?k' = "k\<lparr>S := keccakf_unrolled (S k)\<rparr>"
    have nr: "\<not> (?r = 0 \<or> nat n \<le> ?r)" using False less.prems by linarith
    have sp: "squeeze_spec ?r (S k) (nat n) = take ?r ?ser @ squeeze_spec ?r (keccakf_unrolled (S k)) (nat n - ?r)"
      using nr by (subst squeeze_spec.simps) simp
    have dec: "nat (n - blockSize k) < nat n" using False less.prems by linarith
    have sub: "nat (n - blockSize k) = nat n - ?r" using False less.prems by linarith
    have ok: "\<not> (blockSize k < 0 \<or> int (length ?ser) < blockSize k)"
      using less.prems ls by linarith
    from less.hyps [OF dec, of ?k' ?ser "b @ take ?r ?ser"] less.prems False
    obtain k'' where "squeeze_loop ?k' ?ser (n - blockSize k) (b @ take ?r ?ser) =
        Some (Inr ((b @ take ?r ?ser) @ squeeze_spec ?r (keccakf_unrolled (S k)) (nat (n - blockSize k)), k''))"
      by (auto simp: len_keccakf_unrolled ls)
    with False ok show ?thesis
      by (subst squeeze_loop.simps) (simp add: dump sp sub)
  qed
qed

lemma len_squeeze_spec:
  "0 < rate \<Longrightarrow> rate \<le> 200 \<Longrightarrow> length st = 25 \<Longrightarrow> length (squeeze_spec rate st n) = n"
proof (induction rate st n rule: squeeze_spec.induct)
  case (1 rate st n)
  have ls: "length (serialize st) = 200" using "1.prems" by (simp add: len_serialize)
  show ?case
  proof (cases "n \<le> rate")
    case True
    with "1.prems" ls show ?thesis by (subst squeeze_spec.simps) simp
  next
    case False
    then have c: "\<not> (rate = 0 \<or> n \<le> rate)" using "1.prems" by simp
    have "length (squeeze_spec rate (keccakf_unrolled st) (n - rate)) = n - rate"
      using "1.prems" by (intro "1.IH" [OF c]) (simp_all add: len_keccakf_unrolled)
    with c "1.prems" ls show ?thesis by (subst squeeze_spec.simps) simp
  qed
qed


lemma Sum_ok:
  assumes "sponge_inv k" and "0 \<le> size_k k"
  shows "Sum k b = Some (Inr (b @ squeeze_spec (nat (blockSize k))
            (keccakf_unrolled (xor_block (nat (blockSize k)) (S k)
               (pad_spec (nat (blockSize k)) (buf k) (domain k))))
            (nat (size_k k)), k))"
proof -
  let ?st = "keccakf_unrolled (xor_block (nat (blockSize k)) (S k)
               (pad_spec (nat (blockSize k)) (buf k) (domain k)))"
  let ?kf = "k\<lparr>S := ?st\<rparr>"
  from assms(1) have inv: "0 < blockSize k" "blockSize k \<le> 200"
    by (simp_all add: sponge_inv_def)
  have f: "final k = Inr ?kf" by (rule final_ok [OF assms(1)])
  have "\<exists>k'. squeeze_loop ?kf (replicate (8 * 25) 0) (size_k ?kf) b =
           Some (Inr (b @ squeeze_spec (nat (blockSize ?kf)) (S ?kf) (nat (size_k ?kf)), k'))"
    using inv assms(2) by (intro squeeze_loop_spec) (simp_all add: len_keccakf_unrolled len_xor_block)
  then obtain k' where "squeeze ?kf b = Some (Inr (b @ squeeze_spec (nat (blockSize k)) ?st (nat (size_k k)), k'))"
    by (auto simp: squeeze_def)
  with f show ?thesis by (simp add: Sum_def)
qed

subsection \<open>Streams of chunks, constructors and Reset\<close>










text \<open>With a negative output length the slice expression \<open>buf[:n]\<close> of \<open>squeeze\<close> panics.\<close>

lemma Sum_negative_size:
  assumes "sponge_inv k" and "size_k k < 0"
  shows "Sum k extra = Some (Inl SliceBoundsOutOfRange)"
proof -
  let ?st = "keccakf_unrolled (xor_block (nat (blockSize k)) (S k)
               (pad_spec (nat (blockSize k)) (buf k) (domain k)))"
  from assms(1) have pos: "0 < blockSize k" by (simp add: sponge_inv_def)
  have l: "length ?st = 25" by (simp add: len_keccakf_unrolled len_xor_block)
  have d: "squeeze_dump ?st [0..<25] (replicate 200 0) = Inr (serialize ?st)"
    by (rule squeeze_dump_serialize [OF l]) simp
  have "squeeze (k\<lparr>S := ?st\<rparr>) extra = Some (Inl SliceBoundsOutOfRange)"
    unfolding squeeze_def using assms(2) pos
    by (subst squeeze_loop.simps) (simp add: d)
  then show ?thesis
    by (simp add: Sum_def final_ok [OF assms(1)])
qed

section \<open>The claims about the sponge\<close>

text \<open>
  C2. For every instance whose pending buffer holds \<open>p\<close> bytes with \<open>p\<close> below the rate,
  \<open>pad\<close> returns a block of exactly rate bytes: the pending bytes first; when \<open>p\<close> is
  below rate - 1, the domain byte at offset \<open>p\<close>, zero bytes after it and \<open>0x80\<close> as the
  last byte; when \<open>p\<close> is rate - 1, the one remaining byte is the domain byte ORed with
  \<open>0x80\<close>.
\<close>

theorem pad_block:
  assumes "int (length (buf k)) < blockSize k"
  shows "\<exists>padded. pad k block = Inr padded
          \<and> int (length padded) = blockSize k
          \<and> (\<forall>i < length (buf k). padded ! i = buf k ! i)
          \<and> (int (length (buf k)) < blockSize k - 1 \<longrightarrow>
                padded ! length (buf k) = domain k
                \<and> (\<forall>i. length (buf k) < i \<and> i < length padded - 1 \<longrightarrow> padded ! i = 0)
                \<and> padded ! (length padded - 1) = 0x80)
          \<and> (int (length (buf k)) = blockSize k - 1 \<longrightarrow>
                padded ! (length padded - 1) = domain k OR 0x80)"
proof -
  let ?n = "nat (blockSize k)"
  have p: "length (buf k) < ?n" using assms by linarith
  have "pad k block = Inr (pad_spec ?n (buf k) (domain k))"
    by (rule pad_ok [OF assms])
  moreover have "int (length (pad_spec ?n (buf k) (domain k))) = blockSize k"
    using assms by (simp add: len_pad_spec)
  moreover have "\<forall>i < length (buf k). pad_spec ?n (buf k) (domain k) ! i = buf k ! i"
    using p by (auto simp: pad_spec_def)
  moreover have "int (length (buf k)) < blockSize k - 1 \<longrightarrow>
        pad_spec ?n (buf k) (domain k) ! length (buf k) = domain k
        \<and> (\<forall>i. length (buf k) < i \<and> i < length (pad_spec ?n (buf k) (domain k)) - 1
               \<longrightarrow> pad_spec ?n (buf k) (domain k) ! i = 0)
        \<and> pad_spec ?n (buf k) (domain k) ! (length (pad_spec ?n (buf k) (domain k)) - 1) = 0x80"
    using p by (auto simp: pad_spec_def)
  moreover have "int (length (buf k)) = blockSize k - 1 \<longrightarrow>
        pad_spec ?n (buf k) (domain k) ! (length (pad_spec ?n (buf k) (domain k)) - 1) = domain k OR 0x80"
    using p by (auto simp: pad_spec_def)
  ultimately show ?thesis by blast
qed

theorem pad_block_witness:
  "int (length (buf (NewSHA3256\<lparr>buf := replicate 135 7\<rparr>))) < blockSize (NewSHA3256\<lparr>buf := replicate 135 7\<rparr>)
   \<and> (\<exists>padded. pad (NewSHA3256\<lparr>buf := replicate 135 7\<rparr>) [] = Inr padded
         \<and> length padded = 136 \<and> padded ! 0 = 7 \<and> padded ! 135 = 0x86)"
proof -
  let ?k = "NewSHA3256\<lparr>buf := replicate 135 7\<rparr>"
  have b: "blockSize ?k = 136" "length (buf ?k) = 135" "domain ?k = 6"
    by (simp_all add: NewSHA3256_def newKeccak_def go_div_def domainSHA3_def)
  have h: "int (length (buf ?k)) < blockSize ?k"
    by (simp add: b)
  from pad_block [OF h, of "[]"] obtain padded where
    p: "pad ?k [] = Inr padded" "int (length padded) = blockSize ?k"
       "\<forall>i < length (buf ?k). padded ! i = buf ?k ! i"
       "int (length (buf ?k)) = blockSize ?k - 1 \<longrightarrow> padded ! (length padded - 1) = domain ?k OR 0x80"
    by blast
  from p(2) have l: "length padded = 136" by (simp add: b)
  from p(3) have "padded ! 0 = buf ?k ! 0" by (simp add: b)
  then have z: "padded ! 0 = 7" by simp
  from p(4) l have "padded ! 135 = 0x86" by (simp add: b)
  with h p(1) l z show ?thesis by blast
qed

text \<open>
  C6. The SHA-3 constructors give block sizes of 144, 136, 104 and 72 bytes, sizes of
  28, 32, 48 and 64 bytes and the domain byte \<open>0x06\<close>; each is \<open>newKeccak\<close> at a
  capacity of twice the digest bits, and \<open>newKeccak\<close> sets the block size to 200 minus
  an eighth of the capacity.
\<close>

theorem sha3_constructors:
  "BlockSize NewSHA3224 = 144 \<and> Size NewSHA3224 = 28 \<and> domain NewSHA3224 = 0x06
   \<and> BlockSize NewSHA3256 = 136 \<and> Size NewSHA3256 = 32 \<and> domain NewSHA3256 = 0x06
   \<and> BlockSize NewSHA3384 = 104 \<and> Size NewSHA3384 = 48 \<and> domain NewSHA3384 = 0x06
   \<and> BlockSize NewSHA3512 = 72 \<and> Size NewSHA3512 = 64 \<and> domain NewSHA3512 = 0x06
   \<and> blockSize (newKeccak capacity output d) = 200 - go_div capacity 8
   \<and> NewSHA3224 = newKeccak (2 * 224) 224 0x06
   \<and> NewSHA3256 = newKeccak (2 * 256) 256 0x06
   \<and> NewSHA3384 = newKeccak (2 * 384) 384 0x06
   \<and> NewSHA3512 = newKeccak (2 * 512) 512 0x06"
  by (simp add: BlockSize_def Size_def NewSHA3224_def NewSHA3256_def NewSHA3384_def NewSHA3512_def
      newKeccak_def go_div_def domainSHA3_def)

text \<open>
  C8. On an instance with a state of 25 lanes and a block size of at most 200,
  \<open>absorb\<close> fails if and only if the length of the block differs from the block size,
  and then with its explicit panic; on a block of that length it XORs the little-endian
  words of the block into the first lanes and applies the permutation once. Neither
  \<open>final\<close> nor \<open>Write\<close> ever ends in that panic, whatever the instance.
\<close>

theorem absorb_contract:
  assumes "length (S k) = 25" and "blockSize k \<le> 200"
  shows "((\<exists>e. absorb k block = Inl e) \<longleftrightarrow> int (length block) \<noteq> blockSize k)
       \<and> (absorb k block = Inl AbsorbInvalidBlockSize \<longleftrightarrow> int (length block) \<noteq> blockSize k)
       \<and> (int (length block) = blockSize k \<longrightarrow>
            absorb k block = Inr (k\<lparr>S := keccakf_unrolled (xor_block (nat (blockSize k)) (S k) block)\<rparr>))
       \<and> final k \<noteq> Inl AbsorbInvalidBlockSize
       \<and> Write k b \<noteq> Some (Inl AbsorbInvalidBlockSize)"
proof -
  have 1: "absorb k block = Inl AbsorbInvalidBlockSize \<longleftrightarrow> int (length block) \<noteq> blockSize k"
    by (rule absorb_panic_iff)
  have 2: "int (length block) = blockSize k \<longrightarrow>
            absorb k block = Inr (k\<lparr>S := keccakf_unrolled (xor_block (nat (blockSize k)) (S k) block)\<rparr>)"
    using absorb_ok [OF assms] by blast
  have 3: "(\<exists>e. absorb k block = Inl e) \<longleftrightarrow> int (length block) \<noteq> blockSize k"
    using 1 2 by auto
  from 1 2 3 final_no_absorb_panic [of k] Write_no_absorb_panic [of k b] show ?thesis
    by blast
qed

theorem absorb_contract_witness:
  "length (S NewSHA3512) = 25 \<and> blockSize NewSHA3512 \<le> 200
   \<and> absorb NewSHA3512 (replicate 71 0) = Inl AbsorbInvalidBlockSize
   \<and> absorb NewSHA3512 (replicate 72 0) =
       Inr (NewSHA3512\<lparr>S := keccakf_unrolled (xor_block 72 (S NewSHA3512) (replicate 72 0))\<rparr>)"
proof -
  have b: "blockSize NewSHA3512 = 72" "length (S NewSHA3512) = 25"
    by (simp_all add: NewSHA3512_def newKeccak_def go_div_def)
  have h: "length (S NewSHA3512) = 25" "blockSize NewSHA3512 \<le> 200"
    by (simp_all add: b)
  from absorb_contract [OF h, of "replicate 71 0"] absorb_contract [OF h, of "replicate 72 0"] h
  show ?thesis by (simp add: b)
qed

text \<open>
  C3. For every instance satisfying the sponge invariants with a non-negative output
  length, and every prefix \<open>extra\<close>, \<open>Sum\<close> returns \<open>extra\<close> followed by exactly \<open>size\<close>
  bytes: those the squeeze of the specification produces from the finalized state, out
  of the 200-byte little-endian serialization of the 25 lanes.
\<close>

theorem Sum_squeezes:
  assumes "sponge_inv k" and "0 \<le> size_k k"
  shows "\<exists>kf out. final k = Inr kf
           \<and> Sum k extra = Some (Inr (extra @ out, k))
           \<and> int (length out) = size_k k
           \<and> length (serialize (S kf)) = 200
           \<and> out = squeeze_spec (nat (blockSize k)) (S kf) (nat (size_k k))"
proof -
  let ?st = "keccakf_unrolled (xor_block (nat (blockSize k)) (S k)
               (pad_spec (nat (blockSize k)) (buf k) (domain k)))"
  from assms(1) have inv: "0 < nat (blockSize k)" "nat (blockSize k) \<le> 200"
    unfolding sponge_inv_def by linarith+
  have l: "length ?st = 25" by (simp add: len_keccakf_unrolled len_xor_block)
  have "final k = Inr (k\<lparr>S := ?st\<rparr>)" by (rule final_ok [OF assms(1)])
  moreover have "Sum k extra = Some (Inr (extra @ squeeze_spec (nat (blockSize k)) ?st (nat (size_k k)), k))"
    by (rule Sum_ok [OF assms])
  moreover have "int (length (squeeze_spec (nat (blockSize k)) ?st (nat (size_k k)))) = size_k k"
    using assms(2) by (simp add: len_squeeze_spec [OF inv l])
  moreover have "length (serialize ?st) = 200" by (simp add: len_serialize l)
  ultimately show ?thesis by simp
qed

theorem Sum_squeezes_witness:
  "sponge_inv (NewSHAKE256 300) \<and> 0 \<le> size_k (NewSHAKE256 300)
   \<and> (\<exists>kf out. final (NewSHAKE256 300) = Inr kf
         \<and> Sum (NewSHAKE256 300) [1, 2] = Some (Inr ([1, 2] @ out, NewSHAKE256 300))
         \<and> length out = 300
         \<and> out = squeeze_spec 136 (S kf) 300)"
proof -
  have h: "sponge_inv (NewSHAKE256 300)" "0 \<le> size_k (NewSHAKE256 300)"
    by (simp_all add: sponge_inv_def NewSHAKE256_def newKeccak_def go_div_def)
  have v: "size_k (NewSHAKE256 300) = 300" "blockSize (NewSHAKE256 300) = 136"
    by (simp_all add: NewSHAKE256_def newKeccak_def go_div_def)
  from Sum_squeezes [OF h, of "[1, 2]"] obtain kf out where
    "final (NewSHAKE256 300) = Inr kf"
    "Sum (NewSHAKE256 300) [1, 2] = Some (Inr ([1, 2] @ out, NewSHAKE256 300))"
    "int (length out) = 300" "out = squeeze_spec 136 (S kf) 300"
    by (auto simp: v)
  with h show ?thesis by auto
qed









end
